theory Spec2Isabelle
  imports Main "HOL-Library.Word" "HOL-Library.List_Lexorder" "HOL-Library.Char_ord"
begin

unbundle bit_operations_syntax

section \<open>Python primitives used by blockchain.py\<close>

text \<open>
  A Python \<open>str\<close> is modelled as a \<^typ>\<open>string\<close> whose characters are the code points
  0..255. Comparison of two \<open>str\<close> values (\<open>>=\<close> in \<open>validate\<close>) is the lexicographic
  order on code points, which is the order of \<open>List_Lexorder\<close> over \<open>Char_ord\<close>.
\<close>

subsection \<open>\<open>str(int)\<close>\<close>

definition digit_char :: "nat \<Rightarrow> char" where
  "digit_char d = ''0123456789abcdef'' ! d"

function str_nat :: "nat \<Rightarrow> string" where
  "str_nat n = (if n < 10 then [digit_char n] else str_nat (n div 10) @ [digit_char (n mod 10)])"
  by pat_completeness auto
termination
  by (relation "measure (\<lambda>n. n)") auto

declare str_nat.simps [simp del]

definition str_int :: "int \<Rightarrow> string" where
  "str_int i = (if i < 0 then CHR ''-'' # str_nat (nat (- i)) else str_nat (nat i))"

subsection \<open>\<open>str.encode("utf-8")\<close>\<close>

type_synonym byte = "8 word"

definition utf8_char :: "char \<Rightarrow> byte list" where
  "utf8_char c =
     (let n = (of_char c :: nat)
      in if n < 128 then [of_nat n]
         else [0xC0 OR of_nat (n div 64), 0x80 OR of_nat (n mod 64)])"

definition encode_utf8 :: "string \<Rightarrow> byte list" where
  "encode_utf8 s = concat (map utf8_char s)"

subsection \<open>\<open>json.dumps\<close> with its default arguments\<close>

text \<open>
  The payload of a block is a \<open>Dict\<close>. Python dictionaries keep insertion order and
  \<open>json.dumps\<close> writes the items in that order, so the dictionary is an association list.
  The values are the JSON-serialisable Python values without floating point numbers;
  dictionary keys are strings.
\<close>

datatype json =
    JNone
  | JBool bool
  | JInt int
  | JStr string
  | JList "json list"
  | JDict "(string \<times> json) list"

definition hex4 :: "nat \<Rightarrow> string" where
  "hex4 n = [digit_char (n div 4096 mod 16), digit_char (n div 256 mod 16),
             digit_char (n div 16 mod 16), digit_char (n mod 16)]"

definition json_escape_char :: "char \<Rightarrow> string" where
  \<comment> \<open>\<open>py_encode_basestring_ascii\<close>: \<open>ensure_ascii=True\<close> is the default\<close>
  "json_escape_char c =
     (let n = (of_char c :: nat)
      in if c = CHR ''\"'' then [CHR 0x5C, CHR ''\"'']
         else if n = 0x5C then [CHR 0x5C, CHR 0x5C]
         else if n = 0x0A then [CHR 0x5C, CHR ''n'']
         else if n = 0x0D then [CHR 0x5C, CHR ''r'']
         else if n = 0x09 then [CHR 0x5C, CHR ''t'']
         else if n = 0x0C then [CHR 0x5C, CHR ''f'']
         else if n = 0x08 then [CHR 0x5C, CHR ''b'']
         else if 0x20 \<le> n \<and> n \<le> 0x7E then [c]
         else [CHR 0x5C, CHR ''u''] @ hex4 n)"

definition json_string :: "string \<Rightarrow> string" where
  "json_string s = [CHR ''\"''] @ concat (map json_escape_char s) @ [CHR ''\"'']"

fun join :: "string \<Rightarrow> string list \<Rightarrow> string" where
  "join sep [] = []"
| "join sep [x] = x"
| "join sep (x # y # ys) = x @ sep @ join sep (y # ys)"

fun json_dumps :: "json \<Rightarrow> string" where
  "json_dumps JNone = ''null''"
| "json_dumps (JBool b) = (if b then ''true'' else ''false'')"
| "json_dumps (JInt i) = str_int i"
| "json_dumps (JStr s) = json_string s"
| "json_dumps (JList xs) = ''['' @ join '', '' (map json_dumps xs) @ '']''"
| "json_dumps (JDict kvs) =
     ''{'' @ join '', '' (map (\<lambda>kv. json_string (fst kv) @ '': '' @ json_dumps (snd kv)) kvs) @ ''}''"

subsection \<open>\<open>hashlib.sha256\<close>\<close>

text \<open>
  The constants of the standard are given by their definition: the round constants are
  the first 32 bits of the fractional parts of the cube roots of the first 64 primes,
  the initial hash value those of the square roots of the first 8 primes. For a prime
  \<open>p\<close> and \<open>k = 2, 3\<close> these bits are the integer \<open>k\<close>-th root of \<open>p * 2 ^ (32 * k)\<close> modulo
  \<open>2 ^ 32\<close>; the root is below \<open>2 ^ 36\<close> and is found bit by bit.
\<close>

function no_divisor_from :: "nat \<Rightarrow> nat \<Rightarrow> bool" where
  "no_divisor_from d n =
     (if n < d * d then True
      else if n mod d = 0 then False
      else no_divisor_from (Suc d) n)"
  by pat_completeness auto
termination
proof (relation "measure (\<lambda>(d, n). Suc n - d)")
  show "wf (measure (\<lambda>(d, n). Suc n - d))" by simp
next
  fix d n :: nat
  assume a: "\<not> n < d * d"
  have "d \<le> d * d" by (cases d) simp_all
  also have "d * d \<le> n" using a by simp
  finally have "d \<le> n" .
  then show "((Suc d, n), (d, n)) \<in> measure (\<lambda>(d, n). Suc n - d)" by simp
qed

declare no_divisor_from.simps [simp del]

definition is_prime :: "nat \<Rightarrow> bool" where
  "is_prime n \<longleftrightarrow> 2 \<le> n \<and> no_divisor_from 2 n"

definition first_primes :: "nat \<Rightarrow> nat list" where
  "first_primes k = take k (filter is_prime [2..<312])"

fun root_bits :: "nat \<Rightarrow> nat \<Rightarrow> int \<Rightarrow> int \<Rightarrow> int" where
  "root_bits k 0 n r = r"
| "root_bits k (Suc b) n r = root_bits k b n (if (r + 2 ^ b) ^ k \<le> n then r + 2 ^ b else r)"

definition frac_root :: "nat \<Rightarrow> nat \<Rightarrow> 32 word" where
  "frac_root k p = word_of_int (root_bits k 36 (int p * 2 ^ (32 * k)) 0)"

definition sha_K :: "32 word list" where
  "sha_K = map (frac_root 3) (first_primes 64)"

definition sha_H0 :: "32 word list" where
  "sha_H0 = map (frac_root 2) (first_primes 8)"

definition rotr :: "nat \<Rightarrow> 32 word \<Rightarrow> 32 word" where
  "rotr n x = drop_bit n x OR push_bit (32 - n) x"

definition sha_pad :: "byte list \<Rightarrow> byte list" where
  "sha_pad m =
     (let l = length m;
          bits = (of_nat (8 * l) :: 64 word)
      in m @ [0x80] @ replicate ((119 - l mod 64) mod 64) 0
           @ map (\<lambda>i. ucast (drop_bit (8 * (7 - i)) bits)) [0..<8])"

definition be32 :: "byte list \<Rightarrow> 32 word" where
  "be32 bs = foldl (\<lambda>w b. push_bit 8 w OR ucast b) 0 (take 4 bs)"

fun sha_words :: "nat \<Rightarrow> byte list \<Rightarrow> 32 word list" where
  "sha_words 0 bs = []"
| "sha_words (Suc n) bs = be32 bs # sha_words n (drop 4 bs)"

fun sha_extend :: "nat \<Rightarrow> 32 word list \<Rightarrow> 32 word list" where
  "sha_extend 0 w = w"
| "sha_extend (Suc n) w =
     (let i = length w;
          x = w ! (i - 15);
          y = w ! (i - 2);
          s0 = rotr 7 x XOR rotr 18 x XOR drop_bit 3 x;
          s1 = rotr 17 y XOR rotr 19 y XOR drop_bit 10 y
      in sha_extend n (w @ [w ! (i - 16) + s0 + w ! (i - 7) + s1]))"

type_synonym sha_state =
  "32 word \<times> 32 word \<times> 32 word \<times> 32 word \<times> 32 word \<times> 32 word \<times> 32 word \<times> 32 word"

fun sha_round :: "sha_state \<Rightarrow> 32 word \<times> 32 word \<Rightarrow> sha_state" where
  "sha_round (a, b, c, d, e, f, g, h) (k, w) =
     (let S1 = rotr 6 e XOR rotr 11 e XOR rotr 25 e;
          ch = (e AND f) XOR (NOT e AND g);
          t1 = h + S1 + ch + k + w;
          S0 = rotr 2 a XOR rotr 13 a XOR rotr 22 a;
          maj = (a AND b) XOR (a AND c) XOR (b AND c);
          t2 = S0 + maj
      in (t1 + t2, a, b, c, d + t1, e, f, g))"

fun sha_state_of :: "32 word list \<Rightarrow> sha_state" where
  "sha_state_of hs = (hs ! 0, hs ! 1, hs ! 2, hs ! 3, hs ! 4, hs ! 5, hs ! 6, hs ! 7)"

fun sha_list_of :: "sha_state \<Rightarrow> 32 word list" where
  "sha_list_of (a, b, c, d, e, f, g, h) = [a, b, c, d, e, f, g, h]"

definition sha_compress :: "32 word list \<Rightarrow> byte list \<Rightarrow> 32 word list" where
  "sha_compress hs chunk =
     (let w = sha_extend 48 (sha_words 16 chunk);
          st = foldl sha_round (sha_state_of hs) (zip sha_K w)
      in map (\<lambda>(x, y). x + y) (zip hs (sha_list_of st)))"

fun sha_chunks :: "nat \<Rightarrow> 32 word list \<Rightarrow> byte list \<Rightarrow> 32 word list" where
  "sha_chunks 0 hs bs = hs"
| "sha_chunks (Suc n) hs bs = sha_chunks n (sha_compress hs (take 64 bs)) (drop 64 bs)"

definition sha256 :: "byte list \<Rightarrow> 32 word list" where
  "sha256 m = (let p = sha_pad m in sha_chunks (length p div 64) sha_H0 p)"

definition hex_word :: "32 word \<Rightarrow> string" where
  "hex_word w = map (\<lambda>i. digit_char (unat (drop_bit (4 * (7 - i)) w AND 0xF))) [0..<8]"

definition sha256_hexdigest :: "byte list \<Rightarrow> string" where
  "sha256_hexdigest m = concat (map hex_word (sha256 m))"

section \<open>Block\<close>

record Block =
  index :: int
  timestamp :: string
  data :: "(string \<times> json) list"
  previous_hash :: string
  hash :: string

text \<open>
  \<open>generate_hash\<close> feeds four byte strings to one SHA-256 object; successive \<open>update\<close>
  calls hash the concatenation. It reads the four fields \<open>index\<close>, \<open>timestamp\<close>, \<open>data\<close>
  and \<open>previous_hash\<close> of the block, never the attribute \<open>hash\<close>.
\<close>

definition generate_hash :: "Block \<Rightarrow> string" where
  "generate_hash self =
     sha256_hexdigest
       (encode_utf8 (str_int (index self))
        @ encode_utf8 (timestamp self)
        @ encode_utf8 (json_dumps (JDict (data self)))
        @ encode_utf8 (previous_hash self))"

text \<open>
  \<open>Block.__init__\<close> sets the four fields and then \<open>self.hash = self.generate_hash()\<close>;
  the attribute \<open>hash\<close> does not exist before that assignment (the empty string stands
  for it here, and \<open>generate_hash\<close> does not read it).
\<close>

definition Block_init :: "int \<Rightarrow> string \<Rightarrow> (string \<times> json) list \<Rightarrow> string \<Rightarrow> Block" where
  "Block_init i t d p =
     (let self = \<lparr>index = i, timestamp = t, data = d, previous_hash = p, hash = []\<rparr>
      in self\<lparr>hash := generate_hash self\<rparr>)"

section \<open>The object store\<close>

text \<open>
  Python objects have an identity. \<open>Block\<close> defines no \<open>__eq__\<close>, so \<open>!=\<close> on two blocks
  (in \<open>get_root\<close>) compares identities, and \<open>copy.deepcopy\<close> (in \<open>fork\<close>) makes new
  objects. The store therefore holds the \<open>Block\<close> objects and the \<open>Blockchain\<close> objects
  at addresses: an address is a position in the list of objects of its class, a new
  object goes to the end. A \<open>Blockchain\<close> object is its attribute \<open>blocks\<close>, a list of
  addresses of \<open>Block\<close> objects. The payload dictionary of a block is kept as a value.
\<close>

type_synonym ref = nat

record heap =
  block_objs :: "Block list"
  chain_objs :: "ref list list"

datatype py_error = IndexError

definition alloc_block :: "heap \<Rightarrow> Block \<Rightarrow> ref \<times> heap" where
  "alloc_block h b = (length (block_objs h), h\<lparr>block_objs := block_objs h @ [b]\<rparr>)"

definition alloc_chain :: "heap \<Rightarrow> ref list \<Rightarrow> ref \<times> heap" where
  "alloc_chain h bs = (length (chain_objs h), h\<lparr>chain_objs := chain_objs h @ [bs]\<rparr>)"

definition blocks :: "heap \<Rightarrow> ref \<Rightarrow> ref list" where
  \<comment> \<open>\<open>self.blocks\<close>\<close>
  "blocks h self = chain_objs h ! self"

definition block_at :: "heap \<Rightarrow> ref \<Rightarrow> nat \<Rightarrow> Block" where
  \<comment> \<open>the object \<open>self.blocks[i]\<close>, for \<open>0 <= i < len(self.blocks)\<close>\<close>
  "block_at h self i = block_objs h ! (blocks h self ! i)"

definition chain_length :: "heap \<Rightarrow> ref \<Rightarrow> nat" where
  \<comment> \<open>the property \<open>length\<close>\<close>
  "chain_length h self = length (blocks h self)"

definition block_values :: "heap \<Rightarrow> ref \<Rightarrow> Block list" where
  \<comment> \<open>the field values of the blocks of a chain, in order\<close>
  "block_values h self = map (\<lambda>r. block_objs h ! r) (blocks h self)"

definition wf_chain :: "heap \<Rightarrow> ref \<Rightarrow> bool" where
  \<comment> \<open>\<open>self\<close> is a \<open>Blockchain\<close> object of the store and every element of its list is
      a \<open>Block\<close> object of the store: Python has no dangling reference\<close>
  "wf_chain h self \<longleftrightarrow>
     self < length (chain_objs h) \<and> list_all (\<lambda>r. r < length (block_objs h)) (blocks h self)"

section \<open>Blockchain\<close>

text \<open>
  The property \<open>current_unix_timestamp\<close> reads the system clock; the string it returns is
  the parameter \<open>now\<close> of the two operations that read it.
\<close>

definition generate_genesis_block :: "string \<Rightarrow> Block" where
  "generate_genesis_block now =
     Block_init 0 now
       [(''author'', JStr ''Stefan Delic''), (''message'', JStr ''Hello world.'')]
       ''Liberate my madness...''"

definition Blockchain_init :: "heap \<Rightarrow> string \<Rightarrow> ref \<times> heap" where
  "Blockchain_init h now =
     (let (g, h1) = alloc_block h (generate_genesis_block now)
      in alloc_chain h1 [g])"

text \<open>
  \<open>insert_block\<close>: the arguments of \<open>Block(...)\<close> are evaluated first, and
  \<open>self.blocks[-1]\<close> raises \<open>IndexError\<close> on an empty list, before anything is changed.
  The result is \<open>self.latest_block\<close>, the address of the last block.
\<close>

definition insert_block ::
  "heap \<Rightarrow> ref \<Rightarrow> string \<Rightarrow> (string \<times> json) list \<Rightarrow> py_error + (ref \<times> heap)" where
  "insert_block h self now d =
     (let bs = blocks h self
      in if bs = [] then Inl IndexError
         else
           let (r, h1) = alloc_block h
                 (Block_init (int (length bs)) now d (hash (block_objs h ! last bs)));
               h2 = h1\<lparr>chain_objs := (chain_objs h1)[self := bs @ [r]]\<rparr>
           in Inr (last (blocks h2 self), h2))"

subsection \<open>validate\<close>

fun report :: "bool \<Rightarrow> string \<Rightarrow> bool \<times> string list \<Rightarrow> bool \<times> string list" where
  \<comment> \<open>\<open>if c: flag = False; validation_errors.append(msg)\<close>\<close>
  "report c msg (flag, validation_errors) =
     (if c then (False, validation_errors @ [msg]) else (flag, validation_errors))"

function validate_loop ::
  "heap \<Rightarrow> ref \<Rightarrow> nat \<Rightarrow> nat \<Rightarrow> bool \<times> string list \<Rightarrow> bool \<times> string list" where
  "validate_loop h self i n acc =
     (if i < n then
        let a1 = report (index (block_at h self i) \<noteq> int i)
                   (''Wrong block index at block '' @ str_int (int i) @ ''.'') acc;
            a2 = report (hash (block_at h self (i - 1)) \<noteq> previous_hash (block_at h self i))
                   (''Wrong previous hash at block '' @ str_int (int i) @ ''.'') a1;
            a3 = report (hash (block_at h self i) \<noteq> generate_hash (block_at h self i))
                   (''Wrong hash at block '' @ str_int (int i) @ ''.'') a2;
            a4 = report (timestamp (block_at h self (i - 1)) \<ge> timestamp (block_at h self i))
                   (''Backdating at block '' @ str_int (int i) @ ''.'') a3
        in validate_loop h self (Suc i) n a4
      else acc)"
  by pat_completeness auto
termination
  by (relation "measure (\<lambda>(h, self, i, n, acc). n - i)") auto

declare validate_loop.simps [simp del]

definition validate :: "heap \<Rightarrow> ref \<Rightarrow> bool \<times> string list" where
  "validate h self = validate_loop h self 1 (length (blocks h self)) (True, [])"

definition is_valid :: "heap \<Rightarrow> ref \<Rightarrow> bool" where
  "is_valid h self = fst (validate h self)"

subsection \<open>fork\<close>

text \<open>
  \<open>copy.deepcopy(self)\<close> makes a new \<open>Blockchain\<close> with a new list and a new \<open>Block\<close>
  object for every block object of the list; its memo maps an object already copied to
  its copy, so a block object that occurs twice in the list is copied once. The fields of
  a copy are those of the original (\<open>__init__\<close> is not run, the hash is not recomputed).
\<close>

fun deepcopy_blocks ::
  "ref list \<Rightarrow> (ref \<rightharpoonup> ref) \<Rightarrow> Block list \<Rightarrow> ref list \<times> (ref \<rightharpoonup> ref) \<times> Block list" where
  "deepcopy_blocks [] memo bo = ([], memo, bo)"
| "deepcopy_blocks (r # rs) memo bo =
     (case memo r of
        Some y \<Rightarrow>
          (let (ys, memo', bo') = deepcopy_blocks rs memo bo in (y # ys, memo', bo'))
      | None \<Rightarrow>
          (let y = length bo;
               (ys, memo', bo') = deepcopy_blocks rs (memo(r \<mapsto> y)) (bo @ [bo ! r])
           in (y # ys, memo', bo')))"

definition deepcopy :: "heap \<Rightarrow> ref \<Rightarrow> ref \<times> heap" where
  "deepcopy h self =
     (let (ys, memo, bo) = deepcopy_blocks (blocks h self) Map.empty (block_objs h)
      in alloc_chain (h\<lparr>block_objs := bo\<rparr>) ys)"

definition slice_upto :: "'a list \<Rightarrow> int \<Rightarrow> 'a list" where
  \<comment> \<open>the slice \<open>xs[:upto]\<close>: a negative bound counts from the end\<close>
  "slice_upto xs upto' =
     (if upto' < 0 then take (nat (int (length xs) + upto')) xs else take (nat upto') xs)"

definition fork :: "heap \<Rightarrow> ref \<Rightarrow> int \<Rightarrow> ref \<times> heap" where
  \<comment> \<open>\<open>if upto:\<close> holds for every integer but 0\<close>
  "fork h self upto' =
     (let (new_block, h1) = deepcopy h self
      in if upto' \<noteq> 0
         then (new_block,
               h1\<lparr>chain_objs := (chain_objs h1)[new_block := slice_upto (blocks h1 new_block) upto']\<rparr>)
         else (new_block, h1))"

definition fork_default :: "heap \<Rightarrow> ref \<Rightarrow> ref \<times> heap" where
  \<comment> \<open>\<open>self.fork()\<close>: the default argument is \<open>upto = -1\<close>\<close>
  "fork_default h self = fork h self (- 1)"

subsection \<open>get_root\<close>

text \<open>
  \<open>self.blocks[i] != child_chain.blocks[i]\<close> compares two \<open>Block\<close> objects; without an
  \<open>__eq__\<close> in the class they differ exactly when they are two objects, that is when
  their addresses differ. The loop returns the argument that \<open>get_root\<close> gives to \<open>fork\<close>.
\<close>

function get_root_loop :: "heap \<Rightarrow> ref \<Rightarrow> ref \<Rightarrow> nat \<Rightarrow> nat \<Rightarrow> nat" where
  "get_root_loop h self child_chain i min_len =
     (if i < min_len then
        if blocks h self ! i \<noteq> blocks h child_chain ! i then i
        else get_root_loop h self child_chain (Suc i) min_len
      else min_len)"
  by pat_completeness auto
termination
  by (relation "measure (\<lambda>(h, self, child_chain, i, min_len). min_len - i)") auto

declare get_root_loop.simps [simp del]

definition get_root :: "heap \<Rightarrow> ref \<Rightarrow> ref \<Rightarrow> ref \<times> heap" where
  "get_root h self child_chain =
     (let min_len = min (chain_length h self) (chain_length h child_chain)
      in fork h self (int (get_root_loop h self child_chain 1 min_len)))"

section \<open>Auxiliary definitions\<close>

text \<open>
  The invariant of the deep copy of a list of blocks: the store \<open>bo\<close> extends the store
  \<open>bo0\<close> from before the copy, and the memo maps a block of \<open>bo0\<close> to a new object with
  the same fields.
\<close>

definition copy_inv :: "Block list \<Rightarrow> (ref \<rightharpoonup> ref) \<Rightarrow> Block list \<Rightarrow> bool" where
  "copy_inv bo0 memo bo \<longleftrightarrow>
     take (length bo0) bo = bo0 \<and> length bo0 \<le> length bo \<and>
     (\<forall>r y. memo r = Some y \<longrightarrow> length bo0 \<le> y \<and> y < length bo \<and> bo ! y = bo0 ! r)"

text \<open>The store before any object is made.\<close>

definition empty_heap :: heap where
  "empty_heap = \<lparr>block_objs = [], chain_objs = []\<rparr>"

text \<open>
  A sequence of \<open>insert_block\<close> calls on one chain; each call comes with the string its
  clock read returns. The sequence stops at the first call that raises.
\<close>

fun insert_blocks ::
  "heap \<Rightarrow> ref \<Rightarrow> (string \<times> (string \<times> json) list) list \<Rightarrow> py_error + heap" where
  "insert_blocks h self [] = Inr h"
| "insert_blocks h self ((now, d) # calls) =
     (case insert_block h self now d of
        Inl e \<Rightarrow> Inl e
      | Inr (r, h') \<Rightarrow> insert_blocks h' self calls)"

text \<open>The store after a call of \<open>insert_block\<close>: unchanged when the call raised.\<close>

definition store_after :: "heap \<Rightarrow> py_error + (ref \<times> heap) \<Rightarrow> heap" where
  "store_after h res = (case res of Inl e \<Rightarrow> h | Inr (r, h') \<Rightarrow> h')"

text \<open>
  The chain of the scenarios of the specification: a new chain \<open>A\<close> in the empty
  store, then the payloads \<open>{"v": 1}\<close> and \<open>{"v": 2}\<close> appended; the three clock reads
  return increasing strings. \<open>A\<close> is the chain at address 0.
\<close>

definition chain_A :: "py_error + heap" where
  "chain_A =
     (let (a, h1) = Blockchain_init empty_heap ''1700000000.1''
      in insert_blocks h1 a
           [(''1700000000.2'', [(''v'', JInt 1)]), (''1700000000.3'', [(''v'', JInt 2)])])"

definition heap_A :: heap where
  "heap_A = (case chain_A of Inl e \<Rightarrow> empty_heap | Inr h \<Rightarrow> h)"

text \<open>
  The divergence scenario of the specification (section 8): \<open>B = A.fork()\<close>, then
  \<open>{"v": 3}\<close> is appended to \<open>A\<close> and \<open>{"v": "X"}\<close> to \<open>B\<close>. The pair is the address of
  \<open>B\<close> and the store after the two appends.
\<close>

definition diverged :: "ref \<times> heap" where
  "diverged =
     (let (b, h1) = fork_default heap_A 0;
          h2 = store_after h1 (insert_block h1 0 ''1700000000.4'' [(''v'', JInt 3)]);
          h3 = store_after h2 (insert_block h2 b ''1700000000.5'' [(''v'', JStr ''X'')])
      in (b, h3))"

definition diverged_root :: "ref \<times> heap" where
  "diverged_root = get_root (snd diverged) 0 (fst diverged)"

text \<open>
  The no-divergence scenario: \<open>B\<close> is forked from \<open>A\<close> (by \<open>A.fork()\<close> or by \<open>A.fork(0)\<close>)
  and nothing is appended; then \<open>A.get_root(B)\<close>.
\<close>

definition undiverged_root :: "int \<Rightarrow> ref \<times> heap" where
  "undiverged_root upto' = (let (b, h1) = fork heap_A 0 upto' in get_root h1 0 b)"

text \<open>
  Two unrelated chains: beside \<open>A\<close> (address 0) a second new chain (address 1) with
  its own genesis block and one appended block.
\<close>

definition heap_unrelated :: heap where
  "heap_unrelated =
     (let (c, h1) = Blockchain_init heap_A ''1700000009.1''
      in store_after h1 (insert_block h1 c ''1700000009.2'' [(''w'', JNone)]))"

subsection \<open>The specification of \<open>validate\<close>\<close>

text \<open>
  The specification (sections 3 and 4.2) names four invariants of a position \<open>i \<ge> 1\<close> of
  a chain and asks for the list of all violations, by increasing position and within a
  position in the order index continuity, hash linkage, digest mismatch, timestamp
  backdating. The following definitions are written from those words; \<open>describe\<close> gives
  the wording the code uses for a violation.
\<close>

datatype violation = IndexContinuity | HashLinkage | DigestMismatch | TimestampBackdating

fun violated :: "heap \<Rightarrow> ref \<Rightarrow> nat \<Rightarrow> violation \<Rightarrow> bool" where
  "violated h c i IndexContinuity = (index (block_at h c i) \<noteq> int i)"
| "violated h c i HashLinkage = (previous_hash (block_at h c i) \<noteq> hash (block_at h c (i - 1)))"
| "violated h c i DigestMismatch = (hash (block_at h c i) \<noteq> generate_hash (block_at h c i))"
| "violated h c i TimestampBackdating =
     (\<not> timestamp (block_at h c (i - 1)) < timestamp (block_at h c i))"

definition violations_at :: "heap \<Rightarrow> ref \<Rightarrow> nat \<Rightarrow> (nat \<times> violation) list" where
  "violations_at h c i =
     map (Pair i)
       (filter (violated h c i) [IndexContinuity, HashLinkage, DigestMismatch, TimestampBackdating])"

definition spec_violations :: "heap \<Rightarrow> ref \<Rightarrow> (nat \<times> violation) list" where
  "spec_violations h c = concat (map (violations_at h c) [1..<chain_length h c])"

fun describe :: "nat \<times> violation \<Rightarrow> string" where
  "describe (i, IndexContinuity) = ''Wrong block index at block '' @ str_int (int i) @ ''.''"
| "describe (i, HashLinkage) = ''Wrong previous hash at block '' @ str_int (int i) @ ''.''"
| "describe (i, DigestMismatch) = ''Wrong hash at block '' @ str_int (int i) @ ''.''"
| "describe (i, TimestampBackdating) = ''Backdating at block '' @ str_int (int i) @ ''.''"

text \<open>
  The invariant of a chain that grows by \<open>insert_block\<close>: it is a chain of the store
  with at least one block, no position violates an invariant, and \<open>t\<close> is the timestamp
  of its last block.
\<close>

definition chain_ok :: "heap \<Rightarrow> ref \<Rightarrow> string \<Rightarrow> bool" where
  "chain_ok h c t \<longleftrightarrow>
     wf_chain h c \<and> blocks h c \<noteq> [] \<and> spec_violations h c = [] \<and>
     timestamp (block_at h c (chain_length h c - 1)) = t"

section \<open>Facts about the operations\<close>

subsection \<open>SHA-256\<close>

text \<open>The digest of the model on the test vector \<open>"abc"\<close> of the standard.\<close>

lemma sha256_abc:
  "sha256_hexdigest (encode_utf8 ''abc'')
     = ''ba7816bf8f01cfea414140de5dae2223b00361a396177a9cb410ff61f20015ad''"
  by code_simp

subsection \<open>Block construction\<close>

lemma generate_hash_Block_init:
  "generate_hash (Block_init i t d p) = hash (Block_init i t d p)"
  by (simp add: Block_init_def generate_hash_def)

lemma Block_init_fields [simp]:
  "index (Block_init i t d p) = i"
  "timestamp (Block_init i t d p) = t"
  "data (Block_init i t d p) = d"
  "previous_hash (Block_init i t d p) = p"
  by (simp_all add: Block_init_def)

subsection \<open>The deep copy\<close>

lemma copy_inv_old: "copy_inv bo0 memo bo \<Longrightarrow> r < length bo0 \<Longrightarrow> bo ! r = bo0 ! r"
  unfolding copy_inv_def by (metis nth_take)

lemma copy_inv_memo:
  "copy_inv bo0 memo bo \<Longrightarrow> memo r = Some y \<Longrightarrow> length bo0 \<le> y \<and> y < length bo \<and> bo ! y = bo0 ! r"
  unfolding copy_inv_def by blast

lemma copy_inv_step:
  assumes inv: "copy_inv bo0 memo bo" and r: "r < length bo0"
  shows "copy_inv bo0 (memo(r \<mapsto> length bo)) (bo @ [bo ! r])"
proof -
  have len: "length bo0 \<le> length bo" and tk: "take (length bo0) bo = bo0"
    using inv by (simp_all add: copy_inv_def)
  have old: "bo ! r = bo0 ! r" using copy_inv_old [OF inv r] .
  show ?thesis
    unfolding copy_inv_def
  proof (intro conjI allI impI)
    show "take (length bo0) (bo @ [bo ! r]) = bo0" using len tk by simp
    show "length bo0 \<le> length (bo @ [bo ! r])" using len by simp
  next
    fix q y assume m: "(memo(r \<mapsto> length bo)) q = Some y"
    show "length bo0 \<le> y"
      using m len copy_inv_memo [OF inv, of q y] by (auto split: if_splits)
    show "y < length (bo @ [bo ! r])"
      using m len copy_inv_memo [OF inv, of q y] by (auto split: if_splits)
    show "(bo @ [bo ! r]) ! y = bo0 ! q"
      using m old copy_inv_memo [OF inv, of q y] by (auto simp: nth_append split: if_splits)
  qed
qed

lemma deepcopy_blocks_correct:
  "copy_inv bo0 memo bo \<Longrightarrow> \<forall>r\<in>set rs. r < length bo0 \<Longrightarrow>
   deepcopy_blocks rs memo bo = (ys, memo', bo') \<Longrightarrow>
   copy_inv bo0 memo' bo' \<and> memo \<subseteq>\<^sub>m memo' \<and> length ys = length rs \<and>
   (\<forall>y\<in>set ys. length bo0 \<le> y \<and> y < length bo') \<and>
   map ((!) bo') ys = map ((!) bo0) rs"
proof (induction rs arbitrary: memo bo ys memo' bo')
  case Nil
  then show ?case by simp
next
  case (Cons r rs)
  have r: "r < length bo0" and rs: "\<forall>r\<in>set rs. r < length bo0"
    using Cons.prems(2) by simp_all
  show ?case
  proof (cases "memo r")
    case (Some y)
    obtain zs where rec: "deepcopy_blocks rs memo bo = (zs, memo', bo')" and ys: "ys = y # zs"
      using Cons.prems(3) Some by (auto split: prod.splits)
    from Cons.IH [OF Cons.prems(1) rs rec]
    have IH: "copy_inv bo0 memo' bo'" "memo \<subseteq>\<^sub>m memo'" "length zs = length rs"
      "\<forall>y\<in>set zs. length bo0 \<le> y \<and> y < length bo'"
      "map ((!) bo') zs = map ((!) bo0) rs" by simp_all
    have "memo' r = Some y" using IH(2) Some by (auto simp: map_le_def dom_def dest!: bspec [where x = r])
    from copy_inv_memo [OF IH(1) this] show ?thesis
      using IH ys by simp
  next
    case None
    obtain zs where rec: "deepcopy_blocks rs (memo(r \<mapsto> length bo)) (bo @ [bo ! r]) = (zs, memo', bo')"
      and ys: "ys = length bo # zs"
      using Cons.prems(3) None by (auto simp: Let_def split: prod.splits)
    from Cons.IH [OF copy_inv_step [OF Cons.prems(1) r] rs rec]
    have IH: "copy_inv bo0 memo' bo'" "memo(r \<mapsto> length bo) \<subseteq>\<^sub>m memo'" "length zs = length rs"
      "\<forall>y\<in>set zs. length bo0 \<le> y \<and> y < length bo'"
      "map ((!) bo') zs = map ((!) bo0) rs" by blast+
    have m': "memo' r = Some (length bo)"
      using IH(2) by (auto simp: map_le_def dest!: bspec [where x = r])
    have le: "memo \<subseteq>\<^sub>m memo'"
      unfolding map_le_def
    proof
      fix a assume a: "a \<in> dom memo"
      then have "a \<noteq> r" using None by auto
      then show "memo a = memo' a"
        using IH(2) a by (auto simp: map_le_def dest!: bspec [where x = a])
    qed
    from copy_inv_memo [OF IH(1) m'] show ?thesis
      using IH ys le by simp
  qed
qed

subsection \<open>The store after \<open>fork\<close>\<close>

lemma map_slice_upto: "map f (slice_upto xs k) = slice_upto (map f xs) k"
  by (simp add: slice_upto_def take_map)

lemma set_slice_upto: "set (slice_upto xs k) \<subseteq> set xs"
  by (auto simp: slice_upto_def dest: in_set_takeD)

lemma deepcopy_props:
  assumes wf: "wf_chain h self" and dc: "deepcopy h self = (c, h')"
  shows "c = length (chain_objs h)"
    and "chain_objs h' = chain_objs h @ [blocks h' c]"
    and "take (length (block_objs h)) (block_objs h') = block_objs h"
    and "length (block_objs h) \<le> length (block_objs h')"
    and "\<forall>y\<in>set (blocks h' c). length (block_objs h) \<le> y \<and> y < length (block_objs h')"
    and "block_values h' c = block_values h self"
proof -
  obtain ys memo bo where d: "deepcopy_blocks (blocks h self) Map.empty (block_objs h) = (ys, memo, bo)"
    by (metis prod_cases3)
  have c: "c = length (chain_objs h)" and h': "h' = h\<lparr>block_objs := bo, chain_objs := chain_objs h @ [ys]\<rparr>"
    using dc d by (auto simp: deepcopy_def alloc_chain_def)
  have inv0: "copy_inv (block_objs h) Map.empty (block_objs h)"
    by (simp add: copy_inv_def)
  have valid: "\<forall>r\<in>set (blocks h self). r < length (block_objs h)"
    using wf by (simp add: wf_chain_def list_all_iff)
  note R = deepcopy_blocks_correct [OF inv0 valid d]
  have bl: "blocks h' c = ys" by (simp add: blocks_def c h')
  show "c = length (chain_objs h)" by fact
  show "chain_objs h' = chain_objs h @ [blocks h' c]" by (simp add: bl) (simp add: h')
  show "take (length (block_objs h)) (block_objs h') = block_objs h"
    using R by (simp add: copy_inv_def h')
  show "length (block_objs h) \<le> length (block_objs h')"
    using R by (simp add: copy_inv_def h')
  show "\<forall>y\<in>set (blocks h' c). length (block_objs h) \<le> y \<and> y < length (block_objs h')"
    using R by (simp add: bl) (simp add: h')
  show "block_values h' c = block_values h self"
    using R by (simp add: block_values_def bl) (simp add: h')
qed

lemma fork_props:
  assumes wf: "wf_chain h self" and fk: "fork h self k = (c, h')"
  shows "c = length (chain_objs h)"
    and "chain_objs h' = chain_objs h @ [blocks h' c]"
    and "take (length (block_objs h)) (block_objs h') = block_objs h"
    and "length (block_objs h) \<le> length (block_objs h')"
    and "\<forall>y\<in>set (blocks h' c). length (block_objs h) \<le> y \<and> y < length (block_objs h')"
    and "block_values h' c =
           (if k \<noteq> 0 then slice_upto (block_values h self) k else block_values h self)"
proof -
  obtain h1 where dc: "deepcopy h self = (c, h1)"
    and h': "h' = (if k \<noteq> 0 then h1\<lparr>chain_objs := (chain_objs h1)[c := slice_upto (blocks h1 c) k]\<rparr> else h1)"
    using fk by (auto simp: fork_def split: prod.splits if_splits)
  note D = deepcopy_props [OF wf dc]
  have len1: "length (chain_objs h1) = Suc (length (chain_objs h))"
    using arg_cong [OF D(2), of length] by simp
  have bl: "blocks h' c = (if k \<noteq> 0 then slice_upto (blocks h1 c) k else blocks h1 c)"
    using D(1) len1 by (simp add: h' blocks_def)
  have bo: "block_objs h' = block_objs h1" by (simp add: h')
  show "c = length (chain_objs h)" by fact
  show "chain_objs h' = chain_objs h @ [blocks h' c]"
  proof (cases "k = 0")
    case True
    then show ?thesis using D(2) by (simp add: h' blocks_def)
  next
    case False
    have "(chain_objs h1)[c := slice_upto (blocks h1 c) k] = chain_objs h @ [slice_upto (blocks h1 c) k]"
      using D(1) by (subst D(2)) simp
    then show ?thesis using False by (simp add: bl) (simp add: h')
  qed
  show "take (length (block_objs h)) (block_objs h') = block_objs h" using D(3) by (simp add: bo)
  show "length (block_objs h) \<le> length (block_objs h')" using D(4) by (simp add: bo)
  show "\<forall>y\<in>set (blocks h' c). length (block_objs h) \<le> y \<and> y < length (block_objs h')"
    using D(5) set_slice_upto [of "blocks h1 c" k] by (auto simp: bl bo)
  show "block_values h' c = (if k \<noteq> 0 then slice_upto (block_values h self) k else block_values h self)"
    using D(6) by (auto simp: block_values_def bl bo map_slice_upto)
qed

lemma chain_length_values: "length (block_values h c) = chain_length h c"
  by (simp add: block_values_def chain_length_def)

lemma block_values_frame:
  assumes "wf_chain h c" and "blocks h' c = blocks h c"
    and "take (length (block_objs h)) (block_objs h') = block_objs h"
    and "length (block_objs h) \<le> length (block_objs h')"
  shows "block_values h' c = block_values h c"
proof -
  have "block_objs h' ! r = block_objs h ! r" if "r \<in> set (blocks h c)" for r
  proof -
    have "r < length (block_objs h)" using assms(1) that by (simp add: wf_chain_def list_all_iff)
    then show ?thesis using assms(3) by (metis nth_take)
  qed
  then show ?thesis by (simp add: block_values_def assms(2))
qed

lemma fork_frame:
  assumes wf: "wf_chain h self" and fk: "fork h self k = (c, h')"
    and old: "wf_chain h c0"
  shows "blocks h' c0 = blocks h c0" and "block_values h' c0 = block_values h c0"
    and "c \<noteq> c0" and "set (blocks h' c) \<inter> set (blocks h c0) = {}"
    and "wf_chain h' c0" and "wf_chain h' c"
proof -
  note F = fork_props [OF wf fk]
  have c0: "c0 < length (chain_objs h)" using old by (simp add: wf_chain_def)
  show b: "blocks h' c0 = blocks h c0"
    using c0 by (simp add: blocks_def) (simp add: F(2) nth_append)
  show "block_values h' c0 = block_values h c0"
    using block_values_frame [OF old b F(3) F(4)] .
  show "c \<noteq> c0" using c0 F(1) by simp
  have valid: "\<forall>r\<in>set (blocks h c0). r < length (block_objs h)"
    using old by (simp add: wf_chain_def list_all_iff)
  show "set (blocks h' c) \<inter> set (blocks h c0) = {}"
    using F(5) valid by fastforce
  have len: "length (chain_objs h') = Suc (length (chain_objs h))"
    using arg_cong [OF F(2), of length] by simp
  show "wf_chain h' c0"
    using c0 len valid F(4) by (auto simp: wf_chain_def list_all_iff b)
  show "wf_chain h' c"
    using F(1) F(5) len by (auto simp: wf_chain_def list_all_iff)
qed

lemma slice_upto_pos: "0 \<le> k \<Longrightarrow> slice_upto xs k = take (nat k) xs"
  by (simp add: slice_upto_def)

lemma slice_upto_minus_one: "slice_upto xs (- 1) = butlast xs"
  by (simp add: slice_upto_def butlast_conv_take nat_diff_distrib')

subsection \<open>The example chain\<close>

lemmas eval_defs = empty_heap_def Blockchain_init_def alloc_block_def alloc_chain_def
  insert_block_def blocks_def chain_length_def block_values_def block_at_def wf_chain_def
  fork_def fork_default_def deepcopy_def slice_upto_def get_root_def store_after_def
  generate_genesis_block_def

lemma heap_A_chain: "chain_objs heap_A = [[0, 1, 2]]"
  by (simp add: heap_A_def chain_A_def eval_defs Let_def)

lemma heap_A_blocks: "length (block_objs heap_A) = 3"
  by (simp add: heap_A_def chain_A_def eval_defs Let_def)

lemma heap_A_wf: "wf_chain heap_A 0"
  by (simp add: wf_chain_def blocks_def heap_A_chain heap_A_blocks)

lemma heap_A_length: "chain_length heap_A 0 = 3"
  by (simp add: chain_length_def blocks_def heap_A_chain)

subsection \<open>The result of \<open>fork\<close>\<close>

text \<open>
  C6. For every chain \<open>c1\<close> of the store and every integer \<open>k\<close> with
  \<open>1 \<le> k < c1.length\<close>, \<open>c1.fork(k)\<close> returns a new chain object of length exactly \<open>k\<close>
  whose blocks have the field values of \<open>c1.blocks[0:k]\<close>.
\<close>

theorem fork_upto_prefix:
  assumes "wf_chain h c1" and "1 \<le> k" and "k < int (chain_length h c1)"
    and "fork h c1 k = (c2, h')"
  shows "c2 \<noteq> c1 \<and> chain_length h' c2 = nat k \<and>
         block_values h' c2 = take (nat k) (block_values h c1)"
proof -
  have v: "block_values h' c2 = take (nat k) (block_values h c1)"
    using fork_props(6) [OF assms(1) assms(4)] assms(2) by (simp add: slice_upto_pos)
  have "chain_length h' c2 = length (take (nat k) (block_values h c1))"
    using v chain_length_values [of h' c2] by simp
  then have "chain_length h' c2 = nat k"
    using assms(2,3) by (simp add: chain_length_values)
  then show ?thesis
    using v fork_frame(3) [OF assms(1) assms(4) assms(1)] by simp
qed

theorem fork_upto_prefix_witness:
  "wf_chain heap_A 0 \<and> (1::int) \<le> 2 \<and> 2 < int (chain_length heap_A 0) \<and>
   fst (fork heap_A 0 2) \<noteq> 0 \<and>
   chain_length (snd (fork heap_A 0 2)) (fst (fork heap_A 0 2)) = 2 \<and>
   block_values (snd (fork heap_A 0 2)) (fst (fork heap_A 0 2)) = take 2 (block_values heap_A 0)"
  using fork_upto_prefix [of heap_A 0 2 "fst (fork heap_A 0 2)" "snd (fork heap_A 0 2)"]
  by (simp add: heap_A_wf heap_A_length)

text \<open>
  C7. \<open>fork(0)\<close> does not truncate: the result has the length of the original and blocks
  with the field values of the original's blocks.
\<close>

theorem fork_zero_copies_all:
  assumes "wf_chain h c1" and "fork h c1 0 = (c2, h')"
  shows "c2 \<noteq> c1 \<and> chain_length h' c2 = chain_length h c1 \<and>
         block_values h' c2 = block_values h c1"
proof -
  have v: "block_values h' c2 = block_values h c1"
    using fork_props(6) [OF assms] by simp
  then have "chain_length h' c2 = chain_length h c1"
    using chain_length_values [of h' c2] chain_length_values [of h c1] by simp
  then show ?thesis
    using v fork_frame(3) [OF assms assms(1)] by simp
qed

theorem fork_zero_copies_all_witness:
  "wf_chain heap_A 0 \<and> fst (fork heap_A 0 0) \<noteq> 0 \<and>
   chain_length (snd (fork heap_A 0 0)) (fst (fork heap_A 0 0)) = 3 \<and>
   block_values (snd (fork heap_A 0 0)) (fst (fork heap_A 0 0)) = block_values heap_A 0"
  using fork_zero_copies_all [of heap_A 0 "fst (fork heap_A 0 0)" "snd (fork heap_A 0 0)"]
  by (simp add: heap_A_wf heap_A_length)

text \<open>
  C2. The claim: \<open>fork()\<close> without an argument returns a copy of the whole chain. The
  code: the default argument \<open>-1\<close> is not 0, so the copy is cut to \<open>blocks[:-1]\<close> and
  loses the last block. On the chain \<open>A\<close> of length 3 the fork has length 2.
\<close>

theorem fork_default_drops_last:
  "chain_length heap_A 0 = 3 \<and>
   chain_length (snd (fork_default heap_A 0)) (fst (fork_default heap_A 0)) = 2 \<and>
   block_values (snd (fork_default heap_A 0)) (fst (fork_default heap_A 0))
     = butlast (block_values heap_A 0)"
proof -
  obtain c h' where f: "fork heap_A 0 (- 1) = (c, h')" by (metis surj_pair)
  have v: "block_values h' c = butlast (block_values heap_A 0)"
    using fork_props(6) [OF heap_A_wf f] by (simp add: slice_upto_minus_one)
  have "chain_length h' c = length (butlast (block_values heap_A 0))"
    using v chain_length_values [of h' c] by simp
  then show ?thesis using v f by (simp add: fork_default_def chain_length_values heap_A_length)
qed

subsection \<open>The result of \<open>get_root\<close>\<close>

lemma get_root_loop_bounds:
  "i \<le> m \<Longrightarrow> i \<le> get_root_loop h a b i m \<and> get_root_loop h a b i m \<le> m"
proof (induction h a b i m rule: get_root_loop.induct)
  case (1 h self child_chain i min_len)
  show ?case
  proof (cases "i < min_len \<and> blocks h self ! i = blocks h child_chain ! i")
    case True
    then have "Suc i \<le> get_root_loop h self child_chain (Suc i) min_len \<and>
               get_root_loop h self child_chain (Suc i) min_len \<le> min_len"
      using "1.IH" by simp
    then show ?thesis using True by (subst (1 2) get_root_loop.simps) simp
  next
    case False
    then show ?thesis using "1.prems" by (subst (1 2) get_root_loop.simps) auto
  qed
qed

lemma get_root_loop_zero: "get_root_loop h a b 1 0 = 0"
  by (subst get_root_loop.simps) simp

lemma block_at_values: "i < chain_length h c \<Longrightarrow> block_at h c i = block_values h c ! i"
  by (simp add: block_at_def block_values_def chain_length_def)

text \<open>
  C10. For every pair of chains \<open>A\<close> and \<open>B\<close> of the store, \<open>A\<close> with at least its
  genesis block, \<open>A.get_root(B)\<close> returns a chain of length at least 1 whose block 0 is a
  copy of the genesis block of \<open>A\<close>: a new object with the same fields. The loop starts
  at index 1 and the genesis blocks are not compared; nothing is asked of the blocks of
  \<open>B\<close>, which may be unrelated to \<open>A\<close> (or, after \<open>fork()\<close> of a one-block chain, absent).
\<close>

theorem get_root_keeps_genesis:
  assumes "wf_chain h A" and "wf_chain h B" and "1 \<le> chain_length h A"
    and "get_root h A B = (R, h')"
  shows "1 \<le> chain_length h' R \<and> block_at h' R 0 = block_at h A 0 \<and>
         blocks h' R ! 0 \<notin> set (blocks h A) \<union> set (blocks h B)"
proof -
  define m where "m = min (chain_length h A) (chain_length h B)"
  define k where "k = get_root_loop h A B 1 m"
  have fk: "fork h A (int k) = (R, h')"
    using assms(4) by (simp add: get_root_def m_def k_def)
  have lenA: "length (block_values h A) = chain_length h A" by (rule chain_length_values)
  have vals: "block_values h' R ! 0 = block_values h A ! 0 \<and> 1 \<le> length (block_values h' R)"
  proof (cases "m = 0")
    case True
    have "k = 0" unfolding k_def True by (rule get_root_loop_zero)
    then have "block_values h' R = block_values h A"
      using fork_props(6) [OF assms(1) fk] by simp
    then show ?thesis using assms(3) lenA by simp
  next
    case False
    then have "1 \<le> m" by simp
    from get_root_loop_bounds [OF this, of h A B]
    have k: "1 \<le> k" "k \<le> m" by (simp_all add: k_def)
    then have "k \<le> chain_length h A" by (simp add: m_def)
    moreover have "block_values h' R = take k (block_values h A)"
      using fork_props(6) [OF assms(1) fk] k by (simp add: slice_upto_pos)
    ultimately show ?thesis using k lenA by simp
  qed
  then have len: "1 \<le> chain_length h' R" by (simp add: chain_length_values)
  have b0: "block_at h' R 0 = block_at h A 0"
    using vals len assms(3) by (simp add: block_at_values)
  have "0 < length (blocks h' R)"
    using len by (cases "blocks h' R") (simp_all add: chain_length_def)
  then have "blocks h' R ! 0 \<in> set (blocks h' R)"
    by (rule nth_mem)
  then have "blocks h' R ! 0 \<notin> set (blocks h A) \<union> set (blocks h B)"
    using fork_frame(4) [OF assms(1) fk assms(1)] fork_frame(4) [OF assms(1) fk assms(2)]
    by blast
  then show ?thesis using len b0 by simp
qed

lemmas eval_loops = get_root_loop.simps

lemma heap_unrelated_chains: "chain_objs heap_unrelated = [[0, 1, 2], [3, 4]]"
  by (simp add: heap_unrelated_def heap_A_chain heap_A_blocks eval_defs Let_def)

lemma heap_unrelated_blocks: "length (block_objs heap_unrelated) = 5"
  by (simp add: heap_unrelated_def heap_A_chain heap_A_blocks eval_defs Let_def)

lemma heap_unrelated_genesis:
  "timestamp (block_objs heap_unrelated ! 0) = ''1700000000.1''"
  "timestamp (block_objs heap_unrelated ! 3) = ''1700000009.1''"
  by (simp_all add: heap_unrelated_def heap_A_def chain_A_def eval_defs Let_def nth_append)

theorem get_root_keeps_genesis_witness:
  "wf_chain heap_unrelated 0 \<and> wf_chain heap_unrelated 1 \<and> 1 \<le> chain_length heap_unrelated 0 \<and>
   timestamp (block_at heap_unrelated 0 0) \<noteq> timestamp (block_at heap_unrelated 1 0) \<and>
   1 \<le> chain_length (snd (get_root heap_unrelated 0 1)) (fst (get_root heap_unrelated 0 1)) \<and>
   block_at (snd (get_root heap_unrelated 0 1)) (fst (get_root heap_unrelated 0 1)) 0
     = block_at heap_unrelated 0 0"
  using get_root_keeps_genesis [of heap_unrelated 0 1
      "fst (get_root heap_unrelated 0 1)" "snd (get_root heap_unrelated 0 1)"]
  by (simp add: heap_unrelated_chains heap_unrelated_blocks wf_chain_def blocks_def
        chain_length_def)
     (simp add: block_at_def blocks_def heap_unrelated_chains heap_unrelated_genesis)

subsection \<open>Independence of a fork\<close>

lemma insert_block_frame:
  assumes wf: "wf_chain h c" and ne: "c \<noteq> c'"
  shows "blocks (store_after h (insert_block h c' now d)) c = blocks h c"
    and "block_values (store_after h (insert_block h c' now d)) c = block_values h c"
proof -
  define h2 where "h2 = store_after h (insert_block h c' now d)"
  have co: "chain_objs h2 = chain_objs h \<or> (\<exists>bs. chain_objs h2 = (chain_objs h)[c' := bs])"
    and bo: "block_objs h2 = block_objs h \<or> (\<exists>b. block_objs h2 = block_objs h @ [b])"
    by (auto simp: h2_def store_after_def insert_block_def alloc_block_def Let_def)
  show b: "blocks (store_after h (insert_block h c' now d)) c = blocks h c"
    using co ne by (fold h2_def) (auto simp: blocks_def)
  have "take (length (block_objs h)) (block_objs h2) = block_objs h"
    and "length (block_objs h) \<le> length (block_objs h2)"
    using bo by auto
  from block_values_frame [OF wf b [folded h2_def] this]
  show "block_values (store_after h (insert_block h c' now d)) c = block_values h c"
    by (simp add: h2_def)
qed

lemma fork_independent_upto:
  assumes wf: "wf_chain h c1" and fk: "fork h c1 k = (c2, h1)"
  shows "c2 \<noteq> c1" and "set (blocks h1 c2) \<inter> set (blocks h1 c1) = {}"
    and "blocks (store_after h1 (insert_block h1 c2 now d)) c1 = blocks h1 c1"
    and "block_values (store_after h1 (insert_block h1 c2 now d)) c1 = block_values h1 c1"
    and "blocks (store_after h1 (insert_block h1 c1 now d)) c2 = blocks h1 c2"
    and "block_values (store_after h1 (insert_block h1 c1 now d)) c2 = block_values h1 c2"
proof -
  note F = fork_frame [OF wf fk wf]
  show ne: "c2 \<noteq> c1" by (rule F(3))
  show "set (blocks h1 c2) \<inter> set (blocks h1 c1) = {}" using F(4) by (simp add: F(1))
  show "blocks (store_after h1 (insert_block h1 c2 now d)) c1 = blocks h1 c1"
    using ne by (intro insert_block_frame(1) [OF F(5)]) simp
  show "block_values (store_after h1 (insert_block h1 c2 now d)) c1 = block_values h1 c1"
    using ne by (intro insert_block_frame(2) [OF F(5)]) simp
  show "blocks (store_after h1 (insert_block h1 c1 now d)) c2 = blocks h1 c2"
    by (rule insert_block_frame(1) [OF F(6) ne])
  show "block_values (store_after h1 (insert_block h1 c1 now d)) c2 = block_values h1 c2"
    by (rule insert_block_frame(2) [OF F(6) ne])
qed

text \<open>
  C9. After \<open>c2 = c1.fork()\<close> the two chains are two objects with no block object in
  common, and a call of \<open>insert_block\<close> on one of them leaves the other as it was: its
  list of blocks (so its length) and the fields of its blocks (so every hash) are those
  from before the call. The same holds for \<open>fork\<close> with any argument
  (\<open>fork_independent_upto\<close>).
\<close>

theorem fork_independent:
  assumes "wf_chain h c1" and "fork_default h c1 = (c2, h1)"
  shows "c2 \<noteq> c1 \<and> set (blocks h1 c2) \<inter> set (blocks h1 c1) = {} \<and>
         blocks (store_after h1 (insert_block h1 c2 now d)) c1 = blocks h1 c1 \<and>
         chain_length (store_after h1 (insert_block h1 c2 now d)) c1 = chain_length h1 c1 \<and>
         block_values (store_after h1 (insert_block h1 c2 now d)) c1 = block_values h1 c1 \<and>
         blocks (store_after h1 (insert_block h1 c1 now d)) c2 = blocks h1 c2 \<and>
         chain_length (store_after h1 (insert_block h1 c1 now d)) c2 = chain_length h1 c2 \<and>
         block_values (store_after h1 (insert_block h1 c1 now d)) c2 = block_values h1 c2"
  using fork_independent_upto [OF assms(1) assms(2) [unfolded fork_default_def]]
  by (simp add: chain_length_def)


theorem fork_independent_witness:
  "wf_chain heap_A 0 \<and> fst (fork_default heap_A 0) = 1 \<and>
   chain_length (snd (fork_default heap_A 0)) 0 = 3 \<and>
   chain_length (snd (fork_default heap_A 0)) 1 = 2 \<and>
   chain_length (store_after (snd (fork_default heap_A 0))
     (insert_block (snd (fork_default heap_A 0)) 1 ''1700000000.5'' [(''v'', JStr ''X'')])) 1 = 3 \<and>
   chain_length (store_after (snd (fork_default heap_A 0))
     (insert_block (snd (fork_default heap_A 0)) 1 ''1700000000.5'' [(''v'', JStr ''X'')])) 0 = 3 \<and>
   block_values (store_after (snd (fork_default heap_A 0))
     (insert_block (snd (fork_default heap_A 0)) 1 ''1700000000.5'' [(''v'', JStr ''X'')])) 0
     = block_values (snd (fork_default heap_A 0)) 0"
  using fork_independent [of heap_A 0 "fst (fork_default heap_A 0)" "snd (fork_default heap_A 0)"
      "''1700000000.5''" "[(''v'', JStr ''X'')]"]
  by (simp add: heap_A_wf)
     (simp add: heap_A_chain heap_A_blocks eval_defs eval_loops Let_def)

subsection \<open>The scenarios of the specification\<close>

lemma diverged_eval:
  "fst diverged = 1"
  "chain_objs (snd diverged) = [[0, 1, 2, 6], [3, 4, 7]]"
  "length (block_objs (snd diverged)) = 8"
  by (simp_all add: diverged_def heap_A_chain heap_A_blocks eval_defs Let_def)

lemma diverged_values:
  "block_objs (snd diverged) ! 3 = block_objs (snd diverged) ! 0"
  "block_objs (snd diverged) ! 4 = block_objs (snd diverged) ! 1"
  by (simp_all add: diverged_def heap_A_chain heap_A_blocks eval_defs Let_def nth_append)

lemma diverged_root_eval:
  "chain_objs (snd diverged_root) ! fst diverged_root = [8]"
  "block_objs (snd diverged_root) ! 8 = block_objs (snd diverged) ! 0"
  by (simp_all add: diverged_root_def diverged_eval eval_defs eval_loops Let_def nth_append)

text \<open>
  C1. The claim: in the divergence scenario \<open>A.get_root(B)\<close> has length 3 and the blocks
  \<open>A.blocks[0:3]\<close>, the scan comparing blocks by the equality of all their fields. The
  code: \<open>B = A.fork()\<close> has lost the last block of \<open>A\<close>, so after the two appends \<open>A\<close>
  has length 4 and \<open>B\<close> length 3; and \<open>!=\<close> compares the identities of the blocks, so
  the blocks at index 1, equal in every field, count as different and the result is
  \<open>A.fork(1)\<close>: a copy of the genesis block alone.
\<close>

theorem get_root_diverged_scenario:
  "chain_length (snd diverged) 0 = 4 \<and>
   chain_length (snd diverged) (fst diverged) = 3 \<and>
   block_at (snd diverged) 0 1 = block_at (snd diverged) (fst diverged) 1 \<and>
   blocks (snd diverged) 0 ! 1 \<noteq> blocks (snd diverged) (fst diverged) ! 1 \<and>
   chain_length (snd diverged_root) (fst diverged_root) = 1 \<and>
   block_values (snd diverged_root) (fst diverged_root) = take 1 (block_values (snd diverged) 0)"
  by (simp add: chain_length_def blocks_def block_at_def block_values_def
        diverged_eval diverged_values diverged_root_eval)

lemma undiverged_eval:
  "chain_length (snd (fork heap_A 0 (- 1))) (fst (fork heap_A 0 (- 1))) = 2"
  "chain_length (snd (undiverged_root (- 1))) (fst (undiverged_root (- 1))) = 1"
  "chain_length (snd (fork heap_A 0 0)) (fst (fork heap_A 0 0)) = 3"
  "chain_length (snd (undiverged_root 0)) (fst (undiverged_root 0)) = 1"
  by (simp_all add: undiverged_root_def heap_A_chain heap_A_blocks eval_defs eval_loops Let_def)

text \<open>
  C3. The claim: when \<open>B\<close> is a fork of \<open>A\<close> and nothing was appended, \<open>A.get_root(B)\<close>
  has the length of the shorter chain. The code: the blocks of a fork are new objects,
  so the first comparison, at index 1, finds them different and the result is
  \<open>A.fork(1)\<close>, of length 1. For \<open>A\<close> of length 3 this is so for \<open>B = A.fork()\<close> (of
  length 2) and for \<open>B = A.fork(0)\<close> (of length 3).
\<close>

theorem get_root_of_fork_is_genesis:
  "chain_length heap_A 0 = 3 \<and>
   chain_length (snd (fork_default heap_A 0)) (fst (fork_default heap_A 0)) = 2 \<and>
   chain_length (snd (undiverged_root (- 1))) (fst (undiverged_root (- 1))) = 1 \<and>
   chain_length (snd (fork heap_A 0 0)) (fst (fork heap_A 0 0)) = 3 \<and>
   chain_length (snd (undiverged_root 0)) (fst (undiverged_root 0)) = 1"
  by (simp add: heap_A_length undiverged_eval fork_default_def)

subsection \<open>The loop of \<open>validate\<close>\<close>

lemma validate_step:
  "report (timestamp (block_at h c (i - 1)) \<ge> timestamp (block_at h c i))
       (''Backdating at block '' @ str_int (int i) @ ''.'')
     (report (hash (block_at h c i) \<noteq> generate_hash (block_at h c i))
       (''Wrong hash at block '' @ str_int (int i) @ ''.'')
     (report (hash (block_at h c (i - 1)) \<noteq> previous_hash (block_at h c i))
       (''Wrong previous hash at block '' @ str_int (int i) @ ''.'')
     (report (index (block_at h c i) \<noteq> int i)
       (''Wrong block index at block '' @ str_int (int i) @ ''.'') (flag, errs))))
   = (flag \<and> violations_at h c i = [], errs @ map describe (violations_at h c i))"
  by (auto simp: violations_at_def not_less)

lemma validate_loop_spec:
  "n - i = k \<Longrightarrow>
   validate_loop h c i n (flag, errs) =
     (flag \<and> concat (map (violations_at h c) [i..<n]) = [],
      errs @ map describe (concat (map (violations_at h c) [i..<n])))"
proof (induction k arbitrary: i flag errs)
  case 0
  then have "\<not> i < n" by simp
  then show ?case by (subst validate_loop.simps) simp
next
  case (Suc k)
  then have lt: "i < n" and k: "n - Suc i = k" by simp_all
  have upt: "[i..<n] = i # [Suc i..<n]" using lt by (simp add: upt_conv_Cons)
  have "validate_loop h c i n (flag, errs) =
        validate_loop h c (Suc i) n
          (flag \<and> violations_at h c i = [], errs @ map describe (violations_at h c i))"
    by (subst validate_loop.simps) (simp only: lt if_True Let_def validate_step)
  then show ?case
    by (simp add: Suc.IH [OF k] upt)
qed

lemma validate_eq_spec:
  "validate h c = (spec_violations h c = [], map describe (spec_violations h c))"
  using validate_loop_spec [of "length (blocks h c)" 1 _ h c True "[]"]
  by (simp add: validate_def spec_violations_def chain_length_def)

text \<open>
  C4. \<open>validate\<close> makes the four checks at every position from 1 to the end, whatever
  the earlier positions gave: its list of messages is the list of all violations, by
  increasing position and within a position in the order index continuity, hash
  linkage, digest mismatch, timestamp backdating; its boolean is true exactly when that
  list is empty.
\<close>

theorem validate_exhaustive:
  "validate h c = (spec_violations h c = [], map describe (spec_violations h c))"
  by (rule validate_eq_spec)

subsection \<open>Appending to a new chain\<close>

lemma violations_at_cong:
  "block_at h' c i = block_at h c i \<Longrightarrow> block_at h' c (i - 1) = block_at h c (i - 1) \<Longrightarrow>
   violations_at h' c i = violations_at h c i"
  by (simp add: violations_at_def)

lemma spec_violations_Nil:
  "spec_violations h c = [] \<longleftrightarrow> (\<forall>i. 1 \<le> i \<and> i < chain_length h c \<longrightarrow> violations_at h c i = [])"
  by (auto simp: spec_violations_def)

lemma violations_at_Nil:
  "violations_at h c i = [] \<longleftrightarrow>
     index (block_at h c i) = int i \<and>
     previous_hash (block_at h c i) = hash (block_at h c (i - 1)) \<and>
     hash (block_at h c i) = generate_hash (block_at h c i) \<and>
     timestamp (block_at h c (i - 1)) < timestamp (block_at h c i)"
  by (auto simp: violations_at_def)

lemma insert_block_ok:
  assumes ok: "chain_ok h c t" and lt: "t < now"
  shows "\<exists>r h'. insert_block h c now d = Inr (r, h') \<and> chain_ok h' c now \<and>
           chain_length h' c = Suc (chain_length h c)"
proof -
  define bs where "bs = blocks h c"
  define n where "n = length bs"
  define b where "b = Block_init (int n) now d (hash (block_objs h ! last bs))"
  define r where "r = length (block_objs h)"
  define h' where "h' = h\<lparr>block_objs := block_objs h @ [b], chain_objs := (chain_objs h)[c := bs @ [r]]\<rparr>"
  have wf: "wf_chain h c" and ne: "bs \<noteq> []" and sv: "spec_violations h c = []"
    and tm: "timestamp (block_at h c (n - 1)) = t"
    using ok by (simp_all add: chain_ok_def bs_def n_def chain_length_def)
  have c: "c < length (chain_objs h)" and valid: "\<forall>x\<in>set bs. x < length (block_objs h)"
    using wf by (simp_all add: wf_chain_def list_all_iff bs_def)
  have n: "0 < n" using ne by (simp add: n_def)
  have ins: "insert_block h c now d = Inr (r, h')"
    using ne c by (simp add: insert_block_def alloc_block_def Let_def blocks_def
        bs_def n_def b_def r_def h'_def)
  have bl': "blocks h' c = bs @ [r]" using c by (simp add: blocks_def h'_def)
  have len': "chain_length h' c = Suc n" by (simp add: chain_length_def bl' n_def)
  have old: "block_at h' c i = block_at h c i" if "i < n" for i
  proof -
    have "bs ! i < length (block_objs h)" using valid that by (simp add: n_def)
    then show ?thesis
      using that by (simp add: block_at_def bl' bs_def [symmetric] n_def nth_append) (simp add: h'_def nth_append)
  qed
  have new: "block_at h' c n = b"
    by (simp add: block_at_def bl' n_def nth_append) (simp add: h'_def r_def)
  have last: "block_objs h ! last bs = block_at h c (n - 1)"
    using ne by (simp add: block_at_def bs_def [symmetric] last_conv_nth n_def)
  have wf': "wf_chain h' c"
    using c valid by (auto simp: wf_chain_def list_all_iff bl') (auto simp: h'_def r_def)
  have v: "violations_at h' c i = []" if i: "1 \<le> i" "i < Suc n" for i
  proof (cases "i < n")
    case True
    have "violations_at h' c i = violations_at h c i"
      using True by (intro violations_at_cong old) simp_all
    moreover have "violations_at h c i = []"
      using sv i True by (simp add: spec_violations_Nil chain_length_def bs_def [symmetric] n_def)
    ultimately show ?thesis by simp
  next
    case False
    then have i_n: "i = n" using i by simp
    have prev: "block_at h' c (n - 1) = block_at h c (n - 1)" using n by (intro old) simp
    show ?thesis
      unfolding i_n violations_at_Nil new prev
      using tm lt by (simp add: b_def last generate_hash_Block_init)
  qed
  have "chain_ok h' c now"
    unfolding chain_ok_def
    using wf' v by (simp add: bl' spec_violations_Nil len' new) (simp add: b_def)
  then show ?thesis using ins len' by (simp add: chain_length_def bs_def n_def)
qed

lemma insert_blocks_ok:
  "chain_ok h c t \<Longrightarrow> successively (<) (t # map fst calls) \<Longrightarrow>
   \<exists>h'. insert_blocks h c calls = Inr h' \<and> spec_violations h' c = [] \<and>
        chain_length h' c = chain_length h c + length calls"
proof (induction calls arbitrary: h t)
  case Nil
  then show ?case by (simp add: chain_ok_def)
next
  case (Cons call calls)
  obtain now d where call: "call = (now, d)" by (cases call)
  have lt: "t < now" and rest: "successively (<) (now # map fst calls)"
    using Cons.prems(2) by (simp_all add: call)
  from insert_block_ok [OF Cons.prems(1) lt, of d]
  obtain r h1 where ins: "insert_block h c now d = Inr (r, h1)" and ok1: "chain_ok h1 c now"
    and len1: "chain_length h1 c = Suc (chain_length h c)" by blast
  from Cons.IH [OF ok1 rest]
  obtain h' where "insert_blocks h1 c calls = Inr h'" "spec_violations h' c = []"
    "chain_length h' c = chain_length h1 c + length calls" by blast
  then show ?case using ins len1 by (simp add: call)
qed

lemma Blockchain_init_ok:
  assumes "Blockchain_init h0 t0 = (c, h1)"
  shows "chain_ok h1 c t0" and "chain_length h1 c = 1"
proof -
  have c: "c = length (chain_objs h0)"
    and h1: "h1 = h0\<lparr>block_objs := block_objs h0 @ [generate_genesis_block t0],
                      chain_objs := chain_objs h0 @ [[length (block_objs h0)]]\<rparr>"
    using assms by (auto simp: Blockchain_init_def alloc_block_def alloc_chain_def)
  show "chain_length h1 c = 1" by (simp add: chain_length_def blocks_def c h1)
  show "chain_ok h1 c t0"
    by (simp add: chain_ok_def wf_chain_def spec_violations_def chain_length_def blocks_def
        block_at_def c h1 generate_genesis_block_def)
qed

text \<open>
  C5. A new chain is made (in any store, the clock reading \<open>t0\<close>) and \<open>insert_block\<close> is
  called \<open>N\<close> times on it, each clock reading strictly greater, as a string, than the
  timestamp of the block before. Then every call returns, \<open>validate\<close> gives true with
  an empty list of messages, and the chain has length \<open>N + 1\<close>.
\<close>

theorem inserts_keep_chain_valid:
  assumes "Blockchain_init h0 t0 = (c, h1)" and "successively (<) (t0 # map fst calls)"
  shows "\<exists>h2. insert_blocks h1 c calls = Inr h2 \<and> validate h2 c = (True, []) \<and>
              chain_length h2 c = length calls + 1"
proof -
  from insert_blocks_ok [OF Blockchain_init_ok(1) [OF assms(1)] assms(2)]
  obtain h2 where "insert_blocks h1 c calls = Inr h2" "spec_violations h2 c = []"
    "chain_length h2 c = chain_length h1 c + length calls" by blast
  then show ?thesis
    using Blockchain_init_ok(2) [OF assms(1)] by (simp add: validate_eq_spec)
qed

theorem inserts_keep_chain_valid_witness:
  "Blockchain_init empty_heap ''1700000000.1''
     = (0, snd (Blockchain_init empty_heap ''1700000000.1'')) \<and>
   successively (<) [''1700000000.1'', ''1700000000.2'', ''1700000000.3''] \<and>
   chain_A = Inr heap_A \<and> validate heap_A 0 = (True, []) \<and> chain_length heap_A 0 = 3"
proof -
  define h1 where "h1 = snd (Blockchain_init empty_heap ''1700000000.1'')"
  define calls where
    "calls = [(''1700000000.2'', [(''v'', JInt 1)]), (''1700000000.3'', [(''v'', JInt 2)])]"
  have i: "Blockchain_init empty_heap ''1700000000.1'' = (0, h1)"
    by (simp add: h1_def Blockchain_init_def alloc_block_def alloc_chain_def empty_heap_def)
  have s: "successively (<) (''1700000000.1'' # map fst calls)"
    by (simp add: calls_def)
  from inserts_keep_chain_valid [OF i s]
  obtain h2 where r: "insert_blocks h1 0 calls = Inr h2" "validate h2 0 = (True, [])"
    "chain_length h2 0 = length calls + 1" by blast
  have a: "chain_A = Inr h2" using r(1) by (simp add: chain_A_def i calls_def)
  have "heap_A = h2" unfolding heap_A_def a by simp
  then show ?thesis using a r(2,3) i s by (simp add: h1_def calls_def)
qed

subsection \<open>The digest\<close>

text \<open>
  C8. The hash that \<open>Block.__init__\<close> stores is \<open>generate_hash\<close> of the new block, and
  \<open>generate_hash\<close> depends on the fields \<open>index\<close>, \<open>timestamp\<close>, \<open>data\<close> and
  \<open>previous_hash\<close> only: two blocks that agree on these four have the same digest,
  whatever their attribute \<open>hash\<close> holds. So two blocks constructed from the same four
  arguments carry the same hash. (The payload is the dictionary with its insertion
  order.)
\<close>

theorem generate_hash_deterministic:
  assumes "index b1 = index b2" and "timestamp b1 = timestamp b2"
    and "data b1 = data b2" and "previous_hash b1 = previous_hash b2"
  shows "generate_hash b1 = generate_hash b2 \<and>
         hash (Block_init (index b1) (timestamp b1) (data b1) (previous_hash b1)) = generate_hash b2"
  using assms by (simp add: generate_hash_def Block_init_def)

theorem generate_hash_deterministic_witness:
  "index \<lparr>index = 1, timestamp = ''1700000000.2'', data = [(''v'', JInt 1)],
           previous_hash = ''00'', hash = ''aa''\<rparr>
     = index \<lparr>index = 1, timestamp = ''1700000000.2'', data = [(''v'', JInt 1)],
               previous_hash = ''00'', hash = ''bb''\<rparr> \<and>
   generate_hash \<lparr>index = 1, timestamp = ''1700000000.2'', data = [(''v'', JInt 1)],
                   previous_hash = ''00'', hash = ''aa''\<rparr>
     = generate_hash \<lparr>index = 1, timestamp = ''1700000000.2'', data = [(''v'', JInt 1)],
                       previous_hash = ''00'', hash = ''bb''\<rparr> \<and>
   hash (Block_init 1 ''1700000000.2'' [(''v'', JInt 1)] ''00'')
     = generate_hash \<lparr>index = 1, timestamp = ''1700000000.2'', data = [(''v'', JInt 1)],
                       previous_hash = ''00'', hash = ''bb''\<rparr>"
  using generate_hash_deterministic
    [of "\<lparr>index = 1, timestamp = ''1700000000.2'', data = [(''v'', JInt 1)],
           previous_hash = ''00'', hash = ''aa''\<rparr>"
        "\<lparr>index = 1, timestamp = ''1700000000.2'', data = [(''v'', JInt 1)],
           previous_hash = ''00'', hash = ''bb''\<rparr>"]
  by simp

end
